theory Spec2Isabelle
  imports Main "HOL-Library.Word" "HOL-Library.Sublist"
begin

section \<open>JavaScript strings\<close>

text \<open>
  A JavaScript string is a sequence of UTF-16 code units; \<open>length\<close>, indexing,
  \<open>split\<close>, \<open>slice\<close>, \<open>lastIndexOf\<close> and \<open>trim\<close> all work on code units.
  A code unit is a 16-bit word and a string is a list of them. \<open>js\<close> turns a literal
  of 8-bit characters into such a string (each character is its own code unit).
\<close>

type_synonym jschar = "16 word"
type_synonym jsstring = "jschar list"

definition js :: "string \<Rightarrow> jsstring" where
  "js s = map (\<lambda>c. of_nat (of_char c)) s"

definition LF :: jschar where "LF = 0x0A"
definition CR :: jschar where "CR = 0x0D"
definition SPACE :: jschar where "SPACE = 0x20"
definition DQUOTE :: jschar where "DQUOTE = 0x22"
definition STAR :: jschar where "STAR = 0x2A"
definition SLASH :: jschar where "SLASH = 0x2F"
definition BACKSLASH :: jschar where "BACKSLASH = 0x5C"
definition CARET :: jschar where "CARET = 0x5E"

subsection \<open>String.prototype.split with a one-character separator\<close>

text \<open>
  \<open>s.split(sep)\<close> cuts \<open>s\<close> at every occurrence of \<open>sep\<close>; the pieces hold no
  separator, and the empty string gives one empty piece.
\<close>

fun split :: "jsstring \<Rightarrow> jschar \<Rightarrow> jsstring list" where
  "split [] sep = [[]]"
| "split (c # cs) sep =
     (if c = sep then [] # split cs sep
      else (case split cs sep of
              [] \<Rightarrow> [[c]]
            | piece # pieces \<Rightarrow> (c # piece) # pieces))"

subsection \<open>String.prototype.lastIndexOf with a one-character pattern\<close>

fun lastIndexOf :: "jsstring \<Rightarrow> jschar \<Rightarrow> int" where
  "lastIndexOf [] x = - 1"
| "lastIndexOf (c # cs) x =
     (let r = lastIndexOf cs x
      in if r \<noteq> - 1 then r + 1 else if c = x then 0 else - 1)"

subsection \<open>String.prototype.slice\<close>

text \<open>
  \<open>slice\<close> counts a negative index from the end and clamps both indices to the string.
  \<open>slice2\<close> is the call with two arguments, \<open>slice1\<close> the call with one.
\<close>

definition relativeIndex :: "int \<Rightarrow> nat \<Rightarrow> nat" where
  "relativeIndex k len = (if k < 0 then nat (max (int len + k) 0) else min (nat k) len)"

definition slice2 :: "jsstring \<Rightarrow> int \<Rightarrow> int \<Rightarrow> jsstring" where
  "slice2 s start endIndex =
     (let from = relativeIndex start (length s); to = relativeIndex endIndex (length s)
      in take (to - from) (drop from s))"

definition slice1 :: "jsstring \<Rightarrow> int \<Rightarrow> jsstring" where
  "slice1 s start = drop (relativeIndex start (length s)) s"

subsection \<open>String.prototype.trim\<close>

text \<open>
  \<open>trim\<close> removes white space and line terminators from both ends: the code units
  TAB, LF, VT, FF, CR, SPACE, NBSP, U+1680, U+2000 to U+200A, U+2028, U+2029, U+202F,
  U+205F, U+3000 and U+FEFF.
\<close>

definition isWhiteSpace :: "jschar \<Rightarrow> bool" where
  "isWhiteSpace c =
     (c = 0x09 \<or> c = 0x0A \<or> c = 0x0B \<or> c = 0x0C \<or> c = 0x0D \<or> c = 0x20 \<or> c = 0xA0
      \<or> c = 0x1680 \<or> (0x2000 \<le> c \<and> c \<le> 0x200A) \<or> c = 0x2028 \<or> c = 0x2029
      \<or> c = 0x202F \<or> c = 0x205F \<or> c = 0x3000 \<or> c = 0xFEFF)"

definition trim :: "jsstring \<Rightarrow> jsstring" where
  "trim s = rev (dropWhile isWhiteSpace (rev (dropWhile isWhiteSpace s)))"

subsection \<open>String.prototype.repeat\<close>

text \<open>\<open>repeat\<close> throws a RangeError on a negative count.\<close>

datatype js_error = RangeError

definition repeat :: "jsstring \<Rightarrow> int \<Rightarrow> js_error + jsstring" where
  "repeat s count = (if count < 0 then Inl RangeError else Inr (concat (replicate (nat count) s)))"

section \<open>stripComments (utils/string.ts)\<close>

text \<open>
  The four flags of the scanning loop. The loop runs an index \<open>i\<close> over the input;
  here the function runs over the rest of the input from \<open>i\<close> on, so \<open>char\<close> is the head
  of that rest and \<open>nextChar\<close> the head of its tail (\<open>undefined\<close> at the end, which equals
  no character). The extra \<open>i++\<close> of a branch drops that next character.
  \<open>result.push\<close> puts a character in front of what the rest of the loop pushes.
\<close>

record scan_flags =
  inString :: bool
  inComment :: bool
  inMultilineComment :: bool
  escapeNext :: bool

definition nextChar :: "jsstring \<Rightarrow> jschar option" where
  "nextChar cs = (case cs of [] \<Rightarrow> None | n # _ \<Rightarrow> Some n)"

function stripLoop :: "scan_flags \<Rightarrow> jsstring \<Rightarrow> jsstring" where
  "stripLoop f [] = []"
| "stripLoop f (c # cs) =
     (if escapeNext f then c # stripLoop (f\<lparr>escapeNext := False\<rparr>) cs
      else if \<not> inString f \<and> \<not> inComment f \<and> \<not> inMultilineComment f then
        (if c = DQUOTE then c # stripLoop (f\<lparr>inString := True\<rparr>) cs
         else if c = SLASH \<and> nextChar cs = Some SLASH
           then stripLoop (f\<lparr>inComment := True\<rparr>) (tl cs)
         else if c = SLASH \<and> nextChar cs = Some STAR
           then stripLoop (f\<lparr>inMultilineComment := True\<rparr>) (tl cs)
         else c # stripLoop f cs)
      else if inString f then
        (if c = BACKSLASH then c # stripLoop (f\<lparr>escapeNext := True\<rparr>) cs
         else if c = DQUOTE then c # stripLoop (f\<lparr>inString := False\<rparr>) cs
         else c # stripLoop f cs)
      else if inComment f then
        (if c = LF then c # stripLoop (f\<lparr>inComment := False\<rparr>) cs
         else stripLoop f cs)
      else if inMultilineComment f then
        (if c = STAR \<and> nextChar cs = Some SLASH
           then stripLoop (f\<lparr>inMultilineComment := False\<rparr>) (tl cs)
         else if c = LF then c # stripLoop f cs
         else stripLoop f cs)
      else stripLoop f cs)"
  by pat_completeness auto
termination
  by (relation "measure (\<lambda>(f, cs). length cs)") auto

definition initFlags :: scan_flags where
  "initFlags = \<lparr>inString = False, inComment = False, inMultilineComment = False,
                escapeNext = False\<rparr>"

definition stripComments :: "jsstring \<Rightarrow> jsstring" where
  "stripComments input = stripLoop initFlags input"

text \<open>
  The flag values the loop passes through when it starts from \<open>initFlags\<close>: inside a
  string, inside a string right after a backslash, inside a line comment, inside a
  block comment.
\<close>

definition inStringFlags :: scan_flags where
  "inStringFlags = initFlags\<lparr>inString := True\<rparr>"
definition escapedFlags :: scan_flags where
  "escapedFlags = initFlags\<lparr>inString := True, escapeNext := True\<rparr>"
definition inCommentFlags :: scan_flags where
  "inCommentFlags = initFlags\<lparr>inComment := True\<rparr>"
definition inMultilineFlags :: scan_flags where
  "inMultilineFlags = initFlags\<lparr>inMultilineComment := True\<rparr>"

section \<open>The lexical structure of JSONC text\<close>

text \<open>
  The words of the specification about \<open>stripComments\<close> speak of string literals,
  of \<open>//\<close> comments that run to the end of the line and of \<open>/* */\<close> comments that run
  to the matching \<open>*/\<close>. These definitions follow those words, not the code: a text
  is a sequence of tokens, each one a run of code outside strings and comments, a
  double-quoted string literal, a line comment or a block comment.
  \<open>render\<close> is the text of a token and \<open>stripped\<close> what the specification says is left of
  it: code and string literals unchanged, nothing of a line comment (its line feed
  belongs to the code after it), of a block comment its line feeds only.

  A sequence is well formed when it is what it looks like. Code holds no double quote
  and no \<open>//\<close> or \<open>/*\<close>, also not across its end into the next token. The body of a
  string literal holds a double quote only after a backslash that is not itself
  escaped, and does not end with such a backslash: the quote that follows the body
  closes the literal, so the quotes of the text are balanced. The body of a line
  comment holds no line feed and the text goes on with a line feed or ends. The body
  of a block comment holds no \<open>*/\<close>. A text may end inside a string literal or a
  block comment that is never closed: these are the last two tokens, and nothing
  follows them. The quotes of a text are balanced when it has no unterminated string
  literal.
\<close>

datatype jsonc_token =
    Code jsstring
  | StringLiteral jsstring
  | LineComment jsstring
  | BlockComment jsstring
  | UnterminatedString jsstring
  | UnterminatedBlock jsstring

fun render :: "jsonc_token \<Rightarrow> jsstring" where
  "render (Code t) = t"
| "render (StringLiteral body) = [DQUOTE] @ body @ [DQUOTE]"
| "render (LineComment body) = [SLASH, SLASH] @ body"
| "render (BlockComment body) = [SLASH, STAR] @ body @ [STAR, SLASH]"
| "render (UnterminatedString body) = [DQUOTE] @ body"
| "render (UnterminatedBlock body) = [SLASH, STAR] @ body"

fun stripped :: "jsonc_token \<Rightarrow> jsstring" where
  "stripped (Code t) = t"
| "stripped (StringLiteral body) = [DQUOTE] @ body @ [DQUOTE]"
| "stripped (LineComment body) = []"
| "stripped (BlockComment body) = filter (\<lambda>c. c = LF) body"
| "stripped (UnterminatedString body) = [DQUOTE] @ body"
| "stripped (UnterminatedBlock body) = filter (\<lambda>c. c = LF) body"

fun noOpener :: "jsstring \<Rightarrow> bool" where
  "noOpener (a # b # cs) = (\<not> (a = SLASH \<and> (b = SLASH \<or> b = STAR)) \<and> noOpener (b # cs))"
| "noOpener cs = True"

fun noCloser :: "jsstring \<Rightarrow> bool" where
  "noCloser (a # b # cs) = (\<not> (a = STAR \<and> b = SLASH) \<and> noCloser (b # cs))"
| "noCloser cs = True"

fun stringBody :: "jsstring \<Rightarrow> bool" where
  "stringBody [] = True"
| "stringBody (c # cs) =
     (if c = BACKSLASH then (case cs of [] \<Rightarrow> False | _ # cs' \<Rightarrow> stringBody cs')
      else if c = DQUOTE then False
      else stringBody cs)"

fun openBody :: "jsstring \<Rightarrow> bool" where
  "openBody [] = True"
| "openBody (c # cs) =
     (if c = BACKSLASH then (case cs of [] \<Rightarrow> True | _ # cs' \<Rightarrow> openBody cs')
      else if c = DQUOTE then False
      else openBody cs)"

fun wellFormed :: "jsonc_token list \<Rightarrow> bool" where
  "wellFormed [] = True"
| "wellFormed (Code t # ts) =
     (DQUOTE \<notin> set t \<and> noOpener (t @ take 1 (concat (map render ts))) \<and> wellFormed ts)"
| "wellFormed (StringLiteral body # ts) = (stringBody body \<and> wellFormed ts)"
| "wellFormed (LineComment body # ts) =
     (LF \<notin> set body \<and> take 1 (concat (map render ts)) \<in> {[], [LF]} \<and> wellFormed ts)"
| "wellFormed (BlockComment body # ts) = (noCloser body \<and> wellFormed ts)"
| "wellFormed (UnterminatedString body # ts) = (openBody body \<and> ts = [])"
| "wellFormed (UnterminatedBlock body # ts) = (noCloser body \<and> ts = [])"

section \<open>buildSnippet and getLineColumn (utils/string.ts)\<close>

text \<open>
  \<open>position\<close> is a JavaScript number; the callers pass what \<open>Number.parseInt\<close> read
  from a run of digits, or 0, so it is an integer here. Both functions run the same
  loop over \<open>input.split("\n")\<close> with the index \<open>i\<close> and the running \<open>currentPos\<close>;
  the loops below take the lines from \<open>i\<close> on, and give \<open>None\<close> when the loop ends
  without a \<open>return\<close>, so that the function returns what stands after the loop.
  \<open>line?.length ?? 0\<close> is the length of the line, since \<open>i\<close> is always in range.
  The pointer of \<open>buildSnippet\<close> is \<open>" ".repeat(column)\<close> followed by a caret, and
  \<open>repeat\<close> throws on a negative count.
\<close>

fun buildSnippetLoop :: "jsstring list \<Rightarrow> int \<Rightarrow> int \<Rightarrow> (js_error + jsstring) option" where
  "buildSnippetLoop [] currentPos position = None"
| "buildSnippetLoop (ln # rest) currentPos position =
     (let lineLength = int (length ln)
      in if currentPos + lineLength \<ge> position then
           (let col = position - currentPos
            in case repeat [SPACE] col of
                 Inl e \<Rightarrow> Some (Inl e)
               | Inr pointer \<Rightarrow> Some (Inr (ln @ [LF] @ pointer @ [CARET])))
         else buildSnippetLoop rest (currentPos + lineLength + 1) position)"

definition buildSnippet :: "jsstring \<Rightarrow> int \<Rightarrow> js_error + jsstring" where
  "buildSnippet input position =
     (case buildSnippetLoop (split input LF) 0 position of
        Some r \<Rightarrow> r
      | None \<Rightarrow> Inr input)"

record line_column =
  line :: int
  column :: int

fun getLineColumnLoop :: "jsstring list \<Rightarrow> int \<Rightarrow> int \<Rightarrow> int \<Rightarrow> line_column option" where
  "getLineColumnLoop [] i currentPos position = None"
| "getLineColumnLoop (ln # rest) i currentPos position =
     (let lineLength = int (length ln)
      in if currentPos + lineLength \<ge> position then
           Some \<lparr>line = i + 1, column = position - currentPos + 1\<rparr>
         else getLineColumnLoop rest (i + 1) (currentPos + lineLength + 1) position)"

definition getLineColumn :: "jsstring \<Rightarrow> int \<Rightarrow> line_column" where
  "getLineColumn input position =
     (case getLineColumnLoop (split input LF) 0 0 position of
        Some r \<Rightarrow> r
      | None \<Rightarrow> \<lparr>line = 1, column = 1\<rparr>)"

text \<open>
  The offset at which the text after the lines \<open>ls\<close> starts, each line counted with
  its line feed: the value of \<open>currentPos\<close> after the loop has passed \<open>ls\<close>.
\<close>

definition span :: "jsstring list \<Rightarrow> int" where
  "span ls = sum_list (map (\<lambda>l. int (length l) + 1) ls)"

section \<open>LineBuffer (backends/jsonLines.ts)\<close>

text \<open>
  The class has the fields \<open>buffer\<close> and \<open>lineNumber\<close>; its methods return the emitted
  records \<open>{ line, lineNumber }\<close> and change the fields, so here they return the records
  together with the new object. The fields of an emitted record are \<open>rec_line\<close> and
  \<open>rec_lineNumber\<close>, the names \<open>line\<close> and \<open>lineNumber\<close> being taken. The counter is
  a natural number: it starts at 0 and is only ever incremented.
\<close>

text \<open>
  The batch path of the same file: \<open>splitLines\<close> replaces every \<open>"\r\n"\<close> by
  \<open>"\n"\<close>, splits at line feeds and keeps the lines that are not blank after trimming.
  \<open>replaceCRLF\<close> is \<open>input.replace(/\r\n/g, "\n")\<close>.
\<close>

fun replaceCRLF :: "jsstring \<Rightarrow> jsstring" where
  "replaceCRLF (a # b # cs) =
     (if a = CR \<and> b = LF then LF # replaceCRLF cs else a # replaceCRLF (b # cs))"
| "replaceCRLF cs = cs"

definition splitLines :: "jsstring \<Rightarrow> jsstring list" where
  "splitLines input =
     (let normalized = replaceCRLF input
      in filter (\<lambda>ln. length (trim ln) > 0) (split normalized LF))"

record LineBuffer =
  buffer :: jsstring
  lineNumber :: nat

record line_record =
  rec_line :: jsstring
  rec_lineNumber :: nat

definition newLineBuffer :: LineBuffer where
  "newLineBuffer = \<lparr>buffer = [], lineNumber = 0\<rparr>"

text \<open>The \<open>for (const line of splitLines)\<close> loop: the records pushed and the counter after it.\<close>

fun pushLines :: "jsstring list \<Rightarrow> nat \<Rightarrow> line_record list \<times> nat" where
  "pushLines [] n = ([], n)"
| "pushLines (l # ls) n =
     (if length (trim l) > 0 then
        (case pushLines ls (n + 1) of
           (rs, n') \<Rightarrow> (\<lparr>rec_line = l, rec_lineNumber = n + 1\<rparr> # rs, n'))
      else pushLines ls n)"

definition processChunk :: "LineBuffer \<Rightarrow> jsstring \<Rightarrow> line_record list \<times> LineBuffer" where
  "processChunk b chunk =
     (let buf = buffer b @ chunk;
          lastNewlineIndex = lastIndexOf buf LF
      in if lastNewlineIndex = - 1 then ([], b\<lparr>buffer := buf\<rparr>)
         else
           (let completeText = slice2 buf 0 lastNewlineIndex;
                buf' = slice1 buf (lastNewlineIndex + 1)
            in case pushLines (split completeText LF) (lineNumber b) of
                 (lines, n) \<Rightarrow> (lines, \<lparr>buffer = buf', lineNumber = n\<rparr>)))"

definition flush :: "LineBuffer \<Rightarrow> line_record list \<times> LineBuffer" where
  "flush b =
     (if length (trim (buffer b)) > 0 then
        ([\<lparr>rec_line = trim (buffer b), rec_lineNumber = lineNumber b + 1\<rparr>],
         b\<lparr>lineNumber := lineNumber b + 1\<rparr>)
      else ([], b))"

text \<open>
  Feeding a sequence of chunks to one buffer, in order: the records of all the calls,
  in order, and the buffer after the last call. \<open>feedThenFlush\<close> starts from a new
  buffer, feeds the chunks and ends with one \<open>flush\<close>.
\<close>

fun feed :: "LineBuffer \<Rightarrow> jsstring list \<Rightarrow> line_record list \<times> LineBuffer" where
  "feed b [] = ([], b)"
| "feed b (chunk # chunks) =
     (case processChunk b chunk of
        (out, b') \<Rightarrow> (case feed b' chunks of (outs, b'') \<Rightarrow> (out @ outs, b'')))"

definition feedThenFlush :: "jsstring list \<Rightarrow> line_record list" where
  "feedThenFlush chunks = (case feed newLineBuffer chunks of (out, b) \<Rightarrow> out @ fst (flush b))"

section \<open>Line accounting of stripComments\<close>

text \<open>
  One equation of the loop body for each branch of its \<open>if\<close> chain, in the order the
  source tests them. The proofs below use these and never unfold the loop again.
\<close>

declare stripLoop.simps(2) [simp del]

lemma stripLoop_escape:
  "escapeNext f \<Longrightarrow> stripLoop f (c # cs) = c # stripLoop (f\<lparr>escapeNext := False\<rparr>) cs"
  by (subst stripLoop.simps(2)) simp

lemma stripLoop_normal:
  "\<not> escapeNext f \<Longrightarrow> \<not> inString f \<Longrightarrow> \<not> inComment f \<Longrightarrow> \<not> inMultilineComment f \<Longrightarrow>
   stripLoop f (c # cs) =
     (if c = DQUOTE then c # stripLoop (f\<lparr>inString := True\<rparr>) cs
      else if c = SLASH \<and> nextChar cs = Some SLASH
        then stripLoop (f\<lparr>inComment := True\<rparr>) (tl cs)
      else if c = SLASH \<and> nextChar cs = Some STAR
        then stripLoop (f\<lparr>inMultilineComment := True\<rparr>) (tl cs)
      else c # stripLoop f cs)"
  by (subst stripLoop.simps(2)) simp

lemma stripLoop_string:
  "\<not> escapeNext f \<Longrightarrow> inString f \<Longrightarrow>
   stripLoop f (c # cs) =
     (if c = BACKSLASH then c # stripLoop (f\<lparr>escapeNext := True\<rparr>) cs
      else if c = DQUOTE then c # stripLoop (f\<lparr>inString := False\<rparr>) cs
      else c # stripLoop f cs)"
  by (subst stripLoop.simps(2)) simp

lemma stripLoop_comment:
  "\<not> escapeNext f \<Longrightarrow> \<not> inString f \<Longrightarrow> inComment f \<Longrightarrow>
   stripLoop f (c # cs) =
     (if c = LF then c # stripLoop (f\<lparr>inComment := False\<rparr>) cs else stripLoop f cs)"
  by (subst stripLoop.simps(2)) simp

lemma stripLoop_multi:
  "\<not> escapeNext f \<Longrightarrow> \<not> inString f \<Longrightarrow> \<not> inComment f \<Longrightarrow> inMultilineComment f \<Longrightarrow>
   stripLoop f (c # cs) =
     (if c = STAR \<and> nextChar cs = Some SLASH
        then stripLoop (f\<lparr>inMultilineComment := False\<rparr>) (tl cs)
      else if c = LF then c # stripLoop f cs
      else stripLoop f cs)"
  by (subst stripLoop.simps(2)) simp

lemma flag_cases [case_names esc str lin blk nrm]:
  assumes "escapeNext f \<Longrightarrow> P"
    and "\<not> escapeNext f \<Longrightarrow> inString f \<Longrightarrow> P"
    and "\<not> escapeNext f \<Longrightarrow> \<not> inString f \<Longrightarrow> inComment f \<Longrightarrow> P"
    and "\<not> escapeNext f \<Longrightarrow> \<not> inString f \<Longrightarrow> \<not> inComment f \<Longrightarrow> inMultilineComment f \<Longrightarrow> P"
    and "\<not> escapeNext f \<Longrightarrow> \<not> inString f \<Longrightarrow> \<not> inComment f \<Longrightarrow> \<not> inMultilineComment f \<Longrightarrow> P"
  shows P
  using assms by blast

text \<open>
  Induction over the rest of the input: the loop continues either on the tail or,
  after the extra \<open>i++\<close>, on the tail's tail, with some other flags.
\<close>

lemma scan_induct [case_names Nil Cons]:
  assumes "\<And>f. P f []"
    and "\<And>f c cs. (\<And>g. P g cs) \<Longrightarrow> (\<And>g. P g (tl cs)) \<Longrightarrow> P f (c # cs)"
  shows "P f cs"
proof (induction "length cs" arbitrary: f cs rule: less_induct)
  case less
  show ?case
  proof (cases cs)
    case Nil
    then show ?thesis using assms(1) by simp
  next
    case (Cons c cs')
    have "\<And>g. P g cs'" using less Cons by simp
    moreover have "\<And>g. P g (tl cs')" using less Cons by (cases cs') simp_all
    ultimately show ?thesis using assms(2) Cons by simp
  qed
qed

lemma specials_not_LF: "SLASH \<noteq> LF" "STAR \<noteq> LF" "DQUOTE \<noteq> LF" "BACKSLASH \<noteq> LF"
  by (simp_all add: SLASH_def STAR_def DQUOTE_def BACKSLASH_def LF_def)

lemma count_LF_tl:
  "nextChar cs = Some SLASH \<Longrightarrow> count_list (tl cs) LF = count_list cs LF"
  "nextChar cs = Some STAR \<Longrightarrow> count_list (tl cs) LF = count_list cs LF"
  by (cases cs; simp add: nextChar_def specials_not_LF)+

lemma stripLoop_count_LF: "count_list (stripLoop f cs) LF = count_list cs LF"
proof (induction f cs rule: scan_induct)
  case (Nil f)
  show ?case by simp
next
  case (Cons f c cs)
  show ?case
  proof (cases f rule: flag_cases)
    case esc
    then show ?thesis using Cons by (simp add: stripLoop_escape)
  next
    case str
    then show ?thesis using Cons by (simp add: stripLoop_string)
  next
    case lin
    then show ?thesis using Cons by (simp add: stripLoop_comment)
  next
    case blk
    then show ?thesis using Cons specials_not_LF
      by (simp add: stripLoop_multi count_LF_tl)
  next
    case nrm
    then show ?thesis using Cons specials_not_LF
      by (simp add: stripLoop_normal count_LF_tl)
  qed
qed

text \<open>
  Claim C4. For every input string, the output of \<open>stripComments\<close> holds exactly as many
  line feeds as the input.
\<close>

theorem stripComments_preserves_newline_count:
  "count_list (stripComments s) LF = count_list s LF"
  by (simp add: stripComments_def stripLoop_count_LF)

section \<open>The line segmenter\<close>

subsection \<open>Facts about split and lastIndexOf\<close>

lemma split_nonempty: "split s sep \<noteq> []"
  by (cases s) (simp_all split: list.splits)

lemma split_no_sep: "sep \<notin> set s \<Longrightarrow> split s sep = [s]"
  by (induction s) auto

lemma split_Cons_other:
  "c \<noteq> sep \<Longrightarrow> split (c # cs) sep = (c # hd (split cs sep)) # tl (split cs sep)"
  using split_nonempty [of cs sep] by (cases "split cs sep") simp_all

lemma split_append_sep: "split (xs @ sep # ys) sep = split xs sep @ split ys sep"
  by (induction xs) (auto simp: split_nonempty split: list.splits)

lemma split_append:
  "split (xs @ ys) sep = butlast (split xs sep) @ split (last (split xs sep) @ ys) sep"
proof (induction xs)
  case Nil
  show ?case by simp
next
  case (Cons x xs)
  show ?case
  proof (cases "x = sep")
    case True
    then show ?thesis using Cons by (simp add: split_nonempty)
  next
    case False
    obtain l ls where sp: "split xs sep = l # ls"
      using split_nonempty by (cases "split xs sep") auto
    show ?thesis
    proof (cases ls)
      case Nil
      with sp False Cons show ?thesis by simp
    next
      case (Cons a as)
      with sp False Cons.IH show ?thesis by simp
    qed
  qed
qed

lemma sep_notin_split: "l \<in> set (split s sep) \<Longrightarrow> sep \<notin> set l"
proof (induction s arbitrary: l)
  case Nil
  then show ?case by simp
next
  case (Cons c cs)
  obtain a as where sp: "split cs sep = a # as"
    using split_nonempty by (cases "split cs sep") auto
  show ?case using Cons sp by (auto split: if_splits)
qed

lemma lastIndexOf_ge: "lastIndexOf s x \<ge> - 1"
  by (induction s) (auto simp: Let_def)

lemma lastIndexOf_none: "lastIndexOf s x = - 1 \<longleftrightarrow> x \<notin> set s"
proof (induction s)
  case Nil
  show ?case by simp
next
  case (Cons c cs)
  show ?case using Cons lastIndexOf_ge [of cs x] by (auto simp: Let_def)
qed

lemma lastIndexOf_some:
  "x \<in> set s \<Longrightarrow>
     0 \<le> lastIndexOf s x \<and> nat (lastIndexOf s x) < length s \<and>
     s ! nat (lastIndexOf s x) = x \<and> x \<notin> set (drop (Suc (nat (lastIndexOf s x))) s)"
proof (induction s)
  case Nil
  then show ?case by simp
next
  case (Cons c cs)
  show ?case
  proof (cases "x \<in> set cs")
    case True
    then have ih: "0 \<le> lastIndexOf cs x" "nat (lastIndexOf cs x) < length cs"
      "cs ! nat (lastIndexOf cs x) = x" "x \<notin> set (drop (Suc (nat (lastIndexOf cs x))) cs)"
      using Cons.IH by auto
    then have "lastIndexOf (c # cs) x = lastIndexOf cs x + 1" by (simp add: Let_def)
    moreover have "nat (lastIndexOf cs x + 1) = Suc (nat (lastIndexOf cs x))" using ih(1) by simp
    ultimately show ?thesis using ih by simp
  next
    case False
    then have "lastIndexOf cs x = - 1" by (simp add: lastIndexOf_none)
    moreover have "c = x" using Cons.prems False by simp
    ultimately show ?thesis using False by (simp add: Let_def)
  qed
qed

lemma LineBuffer_update_eq:
  "(b::LineBuffer)\<lparr>buffer := x\<rparr> = \<lparr>buffer = x, lineNumber = lineNumber b\<rparr>"
  by (cases b) simp

lemma processChunk_lines:
  "processChunk b chunk =
     (case pushLines (butlast (split (buffer b @ chunk) LF)) (lineNumber b) of
        (ls, n) \<Rightarrow> (ls, \<lparr>buffer = last (split (buffer b @ chunk) LF), lineNumber = n\<rparr>))"
proof (cases "LF \<in> set (buffer b @ chunk)")
  case False
  then have "lastIndexOf (buffer b @ chunk) LF = - 1" by (simp add: lastIndexOf_none)
  moreover have "split (buffer b @ chunk) LF = [buffer b @ chunk]"
    using False by (rule split_no_sep)
  ultimately show ?thesis
    by (simp add: processChunk_def Let_def LineBuffer_update_eq)
next
  case True
  define buf where "buf = buffer b @ chunk"
  define k where "k = nat (lastIndexOf buf LF)"
  have li: "0 \<le> lastIndexOf buf LF" "k < length buf" "buf ! k = LF"
    "LF \<notin> set (drop (Suc k) buf)"
    using lastIndexOf_some [of LF buf] True by (simp_all add: buf_def k_def)
  have ne: "lastIndexOf buf LF \<noteq> - 1" using li(1) by simp
  have s2: "slice2 buf 0 (lastIndexOf buf LF) = take k buf"
    using li by (simp add: slice2_def relativeIndex_def k_def Let_def min_def)
  have "nat (lastIndexOf buf LF + 1) = Suc k" using li(1) by (simp add: k_def)
  then have s1: "slice1 buf (lastIndexOf buf LF + 1) = drop (Suc k) buf"
    using li by (simp add: slice1_def relativeIndex_def min_def)
  have "buf = take k buf @ LF # drop (Suc k) buf"
    using li(2,3) id_take_nth_drop [of k buf] by simp
  then have "split buf LF = split (take k buf @ LF # drop (Suc k) buf) LF" by simp
  also have "\<dots> = split (take k buf) LF @ [drop (Suc k) buf]"
    using li(4) by (simp add: split_append_sep split_no_sep)
  finally have sp: "split buf LF = split (take k buf) LF @ [drop (Suc k) buf]" .
  show ?thesis
    unfolding processChunk_def buf_def [symmetric] Let_def
    using ne by (simp add: s1 s2 sp)
qed

lemma pushLines_append:
  "pushLines (xs @ ys) n =
     (case pushLines xs n of (a, n1) \<Rightarrow>
        (case pushLines ys n1 of (b, n2) \<Rightarrow> (a @ b, n2)))"
  by (induction xs arbitrary: n) (auto split: prod.splits)

lemma processChunk_append:
  "processChunk b (c @ d) =
     (case processChunk b c of (o1, b1) \<Rightarrow>
        (case processChunk b1 d of (o2, b2) \<Rightarrow> (o1 @ o2, b2)))"
proof -
  have sp: "split (buffer b @ c @ d) LF =
      butlast (split (buffer b @ c) LF) @ split (last (split (buffer b @ c) LF) @ d) LF"
    using split_append [of "buffer b @ c" d LF] by simp
  show ?thesis
    by (simp add: processChunk_lines sp butlast_append split_nonempty pushLines_append
        split: prod.splits)
qed

lemma feed_Cons_concat:
  "feed b (c # cs) = processChunk b (c @ concat cs)"
proof (induction cs arbitrary: b c)
  case Nil
  show ?case by (simp split: prod.splits)
next
  case (Cons d ds)
  have "feed b (c # d # ds) =
      (case processChunk b c of (o1, b1) \<Rightarrow>
         (case feed b1 (d # ds) of (o2, b2) \<Rightarrow> (o1 @ o2, b2)))"
    by simp
  also have "\<dots> = (case processChunk b c of (o1, b1) \<Rightarrow>
         (case processChunk b1 (d @ concat ds) of (o2, b2) \<Rightarrow> (o1 @ o2, b2)))"
    by (simp only: Cons.IH)
  also have "\<dots> = processChunk b (c @ concat (d # ds))"
    by (simp add: processChunk_append)
  finally show ?case .
qed

lemma processChunk_newLineBuffer_empty: "processChunk newLineBuffer [] = ([], newLineBuffer)"
  by (simp add: processChunk_def newLineBuffer_def Let_def)

text \<open>
  Claim C1 (rechunking invariance). For every text and every way of cutting it into
  chunks, \<open>processChunk\<close> on the chunks in order and then \<open>flush\<close>, on a new buffer,
  gives the same records in the same order as \<open>processChunk\<close> once on the whole text
  and then \<open>flush\<close>. The chunks of a partition of \<open>T\<close> are any list whose concatenation
  is \<open>T\<close>; empty chunks and the empty list of chunks are included.
\<close>

theorem rechunking_invariance:
  "feedThenFlush chunks = feedThenFlush [concat chunks]"
proof (cases chunks)
  case Nil
  then show ?thesis
    by (simp add: feedThenFlush_def processChunk_newLineBuffer_empty)
next
  case (Cons c cs)
  have "feed newLineBuffer (c # cs) = feed newLineBuffer [concat (c # cs)]"
    by (simp only: feed_Cons_concat) simp
  then show ?thesis by (simp only: feedThenFlush_def Cons)
qed

subsection \<open>What a call emits\<close>

lemma pushLines_texts:
  "map rec_line (fst (pushLines ls n)) = filter (\<lambda>l. length (trim l) > 0) ls"
proof (induction ls arbitrary: n)
  case Nil
  show ?case by simp
next
  case (Cons l ls)
  obtain rs n' where p: "pushLines ls (Suc n) = (rs, n')" by (cases "pushLines ls (Suc n)")
  show ?case using Cons [of n] Cons [of "Suc n"] p by simp
qed

lemma pushLines_counter:
  "snd (pushLines ls n) = n + length (fst (pushLines ls n))"
proof (induction ls arbitrary: n)
  case Nil
  show ?case by simp
next
  case (Cons l ls)
  obtain rs n' where p: "pushLines ls (Suc n) = (rs, n')" by (cases "pushLines ls (Suc n)")
  show ?case using Cons [of n] Cons [of "Suc n"] p by simp
qed

lemma upt_Suc_head: "[Suc n ..< Suc (Suc (n + k))] = Suc n # [Suc (Suc n) ..< Suc (Suc (n + k))]"
  by (rule upt_conv_Cons) simp

lemma pushLines_numbers:
  "map rec_lineNumber (fst (pushLines ls n)) = [Suc n ..< Suc (n + length (fst (pushLines ls n)))]"
proof (induction ls arbitrary: n)
  case Nil
  show ?case by simp
next
  case (Cons l ls)
  show ?case
  proof (cases "length (trim l) > 0")
    case False
    then show ?thesis using Cons [of n] by simp
  next
    case True
    obtain rs n' where p: "pushLines ls (Suc n) = (rs, n')" by (cases "pushLines ls (Suc n)")
    have ih: "map rec_lineNumber rs = [Suc (Suc n) ..< Suc (Suc (n + length rs))]"
      using Cons [of "Suc n"] p by simp
    have "map rec_lineNumber (fst (pushLines (l # ls) n)) = Suc n # map rec_lineNumber rs"
      using True p by simp
    also have "\<dots> = [Suc n ..< Suc (Suc (n + length rs))]"
      by (simp only: ih upt_Suc_head)
    finally show ?thesis using True p by simp
  qed
qed

lemma feed_newLineBuffer:
  "feed newLineBuffer chunks =
     (fst (pushLines (butlast (split (concat chunks) LF)) 0),
      \<lparr>buffer = last (split (concat chunks) LF),
       lineNumber = length (fst (pushLines (butlast (split (concat chunks) LF)) 0))\<rparr>)"
proof (cases chunks)
  case Nil
  then show ?thesis by (simp add: newLineBuffer_def)
next
  case (Cons c cs)
  obtain rs n where p: "pushLines (butlast (split (concat (c # cs)) LF)) 0 = (rs, n)"
    by (cases "pushLines (butlast (split (concat (c # cs)) LF)) 0")
  have "n = length rs"
    using pushLines_counter [of "butlast (split (concat (c # cs)) LF)" 0] p by simp
  then show ?thesis
    unfolding Cons feed_Cons_concat processChunk_lines
    using p by (simp add: newLineBuffer_def)
qed

lemma trim_nonblank_filter: "[] \<notin> set (map trim (filter (\<lambda>l. length (trim l) > 0) ls))"
  by (induction ls) auto

text \<open>
  Claim C2. Every record emitted by \<open>processChunk\<close> is to carry the trimmed content of
  its source line, with \<open>"\r\n"\<close> normalized to \<open>"\n"\<close>, so that no emitted text holds a
  carriage return, a line feed or white space at either end. The code does not do
  that: \<open>processChunk\<close> appends the chunk as it is and pushes \<open>line\<close>, not
  \<open>line.trim()\<close>. On the chunk \<open>" a \r\n"\<close> the one record emitted has the text
  \<open>" a \r"\<close>, which holds a carriage return, starts with a space and is not the trimmed
  line \<open>"a"\<close>. The sibling paths of the same file do what the claim says: on the same
  input \<open>splitLines\<close> gives the line without the carriage return, and \<open>flush\<close> on the
  same line gives the trimmed text.
\<close>

theorem processChunk_keeps_CR_and_whitespace:
  "fst (processChunk newLineBuffer (js '' a '' @ [CR, LF])) =
      [\<lparr>rec_line = js '' a '' @ [CR], rec_lineNumber = 1\<rparr>]
   \<and> CR \<in> set (js '' a '' @ [CR])
   \<and> trim (js '' a '' @ [CR]) = js ''a''
   \<and> js '' a '' @ [CR] \<noteq> js ''a''
   \<and> splitLines (js '' a '' @ [CR, LF]) = [js '' a '']
   \<and> fst (flush \<lparr>buffer = js '' a '' @ [CR], lineNumber = 0\<rparr>) =
      [\<lparr>rec_line = js ''a'', rec_lineNumber = 1\<rparr>]"
  by code_simp

lemma feedThenFlush_numbers:
  "map rec_lineNumber (feedThenFlush chunks) = [1 ..< Suc (length (feedThenFlush chunks))]"
proof -
  define rs where "rs = fst (pushLines (butlast (split (concat chunks) LF)) 0)"
  have n: "map rec_lineNumber rs = [Suc 0 ..< Suc (length rs)]"
    using pushLines_numbers [of "butlast (split (concat chunks) LF)" 0] by (simp add: rs_def)
  show ?thesis
    unfolding feedThenFlush_def feed_newLineBuffer rs_def [symmetric]
    using n by (simp add: flush_def)
qed

lemma feed_numbers:
  "map rec_lineNumber (fst (feed newLineBuffer chunks)) =
     [1 ..< Suc (length (fst (feed newLineBuffer chunks)))]"
  using pushLines_numbers [of "butlast (split (concat chunks) LF)" 0]
  by (simp add: feed_newLineBuffer)

lemma trim_head: "trim s \<noteq> [] \<Longrightarrow> \<not> isWhiteSpace (hd (trim s))"
proof -
  assume ne: "trim s \<noteq> []"
  define a where "a = dropWhile isWhiteSpace s"
  have "a = rev (takeWhile isWhiteSpace (rev a) @ dropWhile isWhiteSpace (rev a))"
    by (simp only: takeWhile_dropWhile_id rev_rev_ident)
  then have "a = rev (dropWhile isWhiteSpace (rev a)) @ rev (takeWhile isWhiteSpace (rev a))"
    by (simp only: rev_append)
  then have a: "a = trim s @ rev (takeWhile isWhiteSpace (rev a))"
    by (simp only: trim_def a_def)
  then have "hd a = hd (trim s)" using ne by (metis hd_append2)
  moreover have "a \<noteq> []" using a ne by auto
  then have "\<not> isWhiteSpace (hd a)" unfolding a_def by (rule hd_dropWhile)
  ultimately show ?thesis by simp
qed

lemma trim_trim: "trim (trim s) = trim s"
proof (cases "trim s = []")
  case True
  have "trim [] = []" by (simp add: trim_def)
  then show ?thesis by (simp only: True)
next
  case False
  then have "dropWhile isWhiteSpace (trim s) = trim s"
    using trim_head [OF False] by (cases "trim s") simp_all
  moreover have "dropWhile isWhiteSpace (rev (trim s)) = rev (trim s)"
    by (simp add: trim_def dropWhile_idem)
  ultimately show ?thesis by (simp add: trim_def [of "trim s"])
qed

lemma feedThenFlush_texts:
  "map rec_line (feedThenFlush chunks) =
     filter (\<lambda>l. length (trim l) > 0) (butlast (split (concat chunks) LF))
     @ map trim (filter (\<lambda>l. length (trim l) > 0) [last (split (concat chunks) LF)])"
  using pushLines_texts [of "butlast (split (concat chunks) LF)" 0]
  by (simp add: feedThenFlush_def feed_newLineBuffer flush_def)

lemma feedThenFlush_count:
  "length (feedThenFlush chunks) =
     length (filter (\<lambda>l. length (trim l) > 0) (split (concat chunks) LF))"
proof -
  let ?L = "split (concat chunks) LF"
  have "length (feedThenFlush chunks) = length (map rec_line (feedThenFlush chunks))" by simp
  also have "\<dots> = length (filter (\<lambda>l. length (trim l) > 0) (butlast ?L @ [last ?L]))"
    by (simp only: feedThenFlush_texts) simp
  also have "butlast ?L @ [last ?L] = ?L" using split_nonempty [of "concat chunks" LF] by simp
  finally show ?thesis .
qed

lemma feedThenFlush_nonblank:
  "[] \<notin> set (map (\<lambda>r. trim (rec_line r)) (feedThenFlush chunks))"
proof -
  have "map (\<lambda>r. trim (rec_line r)) (feedThenFlush chunks) = map trim (map rec_line (feedThenFlush chunks))"
    by simp
  also have "\<dots> = map trim (filter (\<lambda>l. length (trim l) > 0) (butlast (split (concat chunks) LF)))
     @ map trim (filter (\<lambda>l. length (trim l) > 0) [last (split (concat chunks) LF)])"
    by (simp only: feedThenFlush_texts) (simp add: trim_trim)
  finally show ?thesis using trim_nonblank_filter by (auto simp: trim_trim)
qed

text \<open>
  Claim C6. Blank lines take no line number: for every chunk sequence fed to a new
  buffer, the line numbers of the records emitted by the \<open>processChunk\<close> calls, and of
  those together with the record of the final \<open>flush\<close>, are 1, 2, ..., k in order.
  There is one record for each line of the input that is not blank after trimming,
  the unterminated last line included, and none for a blank one: no emitted text is
  blank, also not the one \<open>flush\<close> emits. Scenario E: the input
  \<open>{"id":1}\n\n  \n{"id":2}\n\<close> gives the records 1 and 2; and after \<open>a\n\<close> a tail of
  two spaces gives no record.
\<close>

theorem blank_lines_take_no_number:
  "map rec_lineNumber (feedThenFlush chunks) = [1 ..< Suc (length (feedThenFlush chunks))]
   \<and> map rec_lineNumber (fst (feed newLineBuffer chunks)) =
       [1 ..< Suc (length (fst (feed newLineBuffer chunks)))]
   \<and> length (fst (feed newLineBuffer chunks)) =
       length (filter (\<lambda>l. length (trim l) > 0) (butlast (split (concat chunks) LF)))
   \<and> length (feedThenFlush chunks) =
       length (filter (\<lambda>l. length (trim l) > 0) (split (concat chunks) LF))
   \<and> [] \<notin> set (map (\<lambda>r. trim (rec_line r)) (feedThenFlush chunks))
   \<and> feedThenFlush [js ''{\"id\":1}'' @ [LF, LF] @ js ''  '' @ [LF] @ js ''{\"id\":2}'' @ [LF]] =
       [\<lparr>rec_line = js ''{\"id\":1}'', rec_lineNumber = 1\<rparr>,
        \<lparr>rec_line = js ''{\"id\":2}'', rec_lineNumber = 2\<rparr>]
   \<and> feedThenFlush [js ''a'' @ [LF] @ js ''  ''] = [\<lparr>rec_line = js ''a'', rec_lineNumber = 1\<rparr>]"
proof -
  have len: "length (fst (feed newLineBuffer chunks)) =
       length (filter (\<lambda>l. length (trim l) > 0) (butlast (split (concat chunks) LF)))"
    using pushLines_texts [of "butlast (split (concat chunks) LF)" 0]
      length_map [of rec_line "fst (pushLines (butlast (split (concat chunks) LF)) 0)"]
    by (simp add: feed_newLineBuffer)
  have e: "feedThenFlush [js ''{\"id\":1}'' @ [LF, LF] @ js ''  '' @ [LF] @ js ''{\"id\":2}'' @ [LF]] =
       [\<lparr>rec_line = js ''{\"id\":1}'', rec_lineNumber = 1\<rparr>,
        \<lparr>rec_line = js ''{\"id\":2}'', rec_lineNumber = 2\<rparr>]"
    by code_simp
  have t: "feedThenFlush [js ''a'' @ [LF] @ js ''  ''] = [\<lparr>rec_line = js ''a'', rec_lineNumber = 1\<rparr>]"
    by code_simp
  show ?thesis
    using feedThenFlush_numbers [of chunks] feed_numbers [of chunks] len
      feedThenFlush_count [of chunks] feedThenFlush_nonblank [of chunks] e t
    by blast
qed

text \<open>
  Claim C9. \<open>flush\<close> leaves the buffer as it is: when the buffer is not blank after
  trimming, two calls of \<open>flush\<close> in a row each emit one record with the same trimmed
  text, numbered \<open>n + 1\<close> and \<open>n + 2\<close>, and the buffer is still the same afterwards.
\<close>

theorem flush_keeps_buffer:
  "length (trim (buffer b)) > 0 \<Longrightarrow>
     fst (flush b) = [\<lparr>rec_line = trim (buffer b), rec_lineNumber = lineNumber b + 1\<rparr>] \<and>
     fst (flush (snd (flush b))) = [\<lparr>rec_line = trim (buffer b), rec_lineNumber = lineNumber b + 2\<rparr>] \<and>
     buffer (snd (flush (snd (flush b)))) = buffer b"
  by (simp add: flush_def)

theorem flush_keeps_buffer_witness:
  "length (trim (buffer \<lparr>buffer = js '' x '', lineNumber = 3\<rparr>)) > 0 \<and>
   fst (flush \<lparr>buffer = js '' x '', lineNumber = 3\<rparr>) = [\<lparr>rec_line = js ''x'', rec_lineNumber = 4\<rparr>] \<and>
   fst (flush (snd (flush \<lparr>buffer = js '' x '', lineNumber = 3\<rparr>))) = [\<lparr>rec_line = js ''x'', rec_lineNumber = 5\<rparr>]"
proof -
  have t: "trim (js '' x '') = js ''x''" by code_simp
  have h: "length (trim (buffer \<lparr>buffer = js '' x '', lineNumber = 3\<rparr>)) > 0"
    by (simp add: t) (simp add: js_def)
  show ?thesis
    using h flush_keeps_buffer [OF h] by (simp add: t)
qed

section \<open>The position locator\<close>

lemma span_simps [simp]: "span [] = 0" "span (l # ls) = int (length l) + 1 + span ls"
  by (simp_all add: span_def)

lemma span_nonneg: "0 \<le> span ls"
  by (induction ls) simp_all

lemma span_split: "span (split s sep) = int (length s) + 1"
proof (induction s)
  case Nil
  show ?case by simp
next
  case (Cons c cs)
  obtain l ls where sp: "split cs sep = l # ls"
    using split_nonempty [of cs sep] by (cases "split cs sep") auto
  show ?case using Cons sp by simp
qed

lemma loops_past_end:
  "cur + span ls \<le> position \<Longrightarrow>
     getLineColumnLoop ls i cur position = None \<and> buildSnippetLoop ls cur position = None"
proof (induction ls arbitrary: i cur)
  case Nil
  show ?case by simp
next
  case (Cons l ls)
  have "\<not> cur + int (length l) \<ge> position" using Cons.prems span_nonneg [of ls] by simp
  moreover have "cur + int (length l) + 1 + span ls \<le> position" using Cons.prems by simp
  ultimately show ?case using Cons.IH [of "cur + int (length l) + 1" "i + 1"] by (simp add: Let_def)
qed

lemma loops_inside:
  "cur \<le> position \<Longrightarrow> position < cur + span ls \<Longrightarrow>
     \<exists>k < length ls.
       cur + span (take k ls) \<le> position \<and>
       position \<le> cur + span (take k ls) + int (length (ls ! k)) \<and>
       getLineColumnLoop ls i cur position =
         Some \<lparr>line = i + 1 + int k, column = position - (cur + span (take k ls)) + 1\<rparr> \<and>
       buildSnippetLoop ls cur position =
         Some (Inr (ls ! k @ [LF] @ replicate (nat (position - (cur + span (take k ls)))) SPACE
                    @ [CARET]))"
proof (induction ls arbitrary: i cur)
  case Nil
  then show ?case by simp
next
  case (Cons l ls)
  show ?case
  proof (cases "cur + int (length l) \<ge> position")
    case True
    have "repeat [SPACE] (position - cur) = Inr (replicate (nat (position - cur)) SPACE)"
      using Cons.prems(1) by (simp add: repeat_def)
    then have "cur + span (take 0 (l # ls)) \<le> position \<and>
       position \<le> cur + span (take 0 (l # ls)) + int (length ((l # ls) ! 0)) \<and>
       getLineColumnLoop (l # ls) i cur position =
         Some \<lparr>line = i + 1 + int 0, column = position - (cur + span (take 0 (l # ls))) + 1\<rparr> \<and>
       buildSnippetLoop (l # ls) cur position =
         Some (Inr ((l # ls) ! 0 @ [LF] @ replicate (nat (position - (cur + span (take 0 (l # ls))))) SPACE
                    @ [CARET]))"
      using True Cons.prems by (simp add: Let_def)
    then show ?thesis by blast
  next
    case False
    define cur' where "cur' = cur + int (length l) + 1"
    have a: "cur' \<le> position" using False by (simp add: cur'_def)
    have b: "position < cur' + span ls" using Cons.prems(2) by (simp add: cur'_def)
    obtain k where k: "k < length ls" "cur' + span (take k ls) \<le> position"
      "position \<le> cur' + span (take k ls) + int (length (ls ! k))"
      "getLineColumnLoop ls (i + 1) cur' position =
         Some \<lparr>line = i + 1 + 1 + int k, column = position - (cur' + span (take k ls)) + 1\<rparr>"
      "buildSnippetLoop ls cur' position =
         Some (Inr (ls ! k @ [LF] @ replicate (nat (position - (cur' + span (take k ls)))) SPACE
                    @ [CARET]))"
      using Cons.IH [OF a b, of "i + 1"] by blast
    have c: "cur + span (take (Suc k) (l # ls)) = cur' + span (take k ls)"
      by (simp add: cur'_def)
    have "Suc k < length (l # ls) \<and> cur + span (take (Suc k) (l # ls)) \<le> position \<and>
       position \<le> cur + span (take (Suc k) (l # ls)) + int (length ((l # ls) ! Suc k)) \<and>
       getLineColumnLoop (l # ls) i cur position =
         Some \<lparr>line = i + 1 + int (Suc k), column = position - (cur + span (take (Suc k) (l # ls))) + 1\<rparr> \<and>
       buildSnippetLoop (l # ls) cur position =
         Some (Inr ((l # ls) ! Suc k @ [LF] @ replicate (nat (position - (cur + span (take (Suc k) (l # ls))))) SPACE
                    @ [CARET]))"
      unfolding c using k False by (simp add: Let_def cur'_def)
    then show ?thesis by blast
  qed
qed

lemma locator_at:
  assumes "0 \<le> position" "position \<le> int (length input)"
  shows "1 \<le> line (getLineColumn input position)
    \<and> line (getLineColumn input position) \<le> int (length (split input LF))
    \<and> 1 \<le> column (getLineColumn input position)
    \<and> column (getLineColumn input position)
        \<le> int (length (split input LF ! nat (line (getLineColumn input position) - 1))) + 1
    \<and> position = span (take (nat (line (getLineColumn input position) - 1)) (split input LF))
        + (column (getLineColumn input position) - 1)
    \<and> buildSnippet input position =
        Inr (split input LF ! nat (line (getLineColumn input position) - 1) @ [LF]
             @ replicate (nat (column (getLineColumn input position) - 1)) SPACE @ [CARET])
    \<and> LF \<notin> set (split input LF ! nat (line (getLineColumn input position) - 1))"
proof -
  define ls where "ls = split input LF"
  have "position < 0 + span ls" using assms(2) by (simp add: ls_def span_split)
  then obtain k where k: "k < length ls" "span (take k ls) \<le> position"
      "position \<le> span (take k ls) + int (length (ls ! k))"
      "getLineColumnLoop ls 0 0 position =
         Some \<lparr>line = 1 + int k, column = position - span (take k ls) + 1\<rparr>"
      "buildSnippetLoop ls 0 position =
         Some (Inr (ls ! k @ [LF] @ replicate (nat (position - span (take k ls))) SPACE @ [CARET]))"
    using loops_inside [of 0 position ls 0] assms(1) by auto
  have lc: "getLineColumn input position = \<lparr>line = 1 + int k, column = position - span (take k ls) + 1\<rparr>"
    using k(4) by (simp add: getLineColumn_def ls_def)
  have sn: "buildSnippet input position =
      Inr (ls ! k @ [LF] @ replicate (nat (position - span (take k ls))) SPACE @ [CARET])"
    using k(5) by (simp add: buildSnippet_def ls_def)
  have "ls ! k \<in> set ls" using k(1) by simp
  then have nl: "LF \<notin> set (ls ! k)" using sep_notin_split [of "ls ! k" input LF] by (simp add: ls_def)
  show ?thesis
    unfolding ls_def [symmetric] lc sn using k(1,2,3) nl by simp
qed

text \<open>
  Claim C8. For every text and every zero-based offset inside it, \<open>getLineColumn\<close>
  returns a 1-based line and column: the line exists, the column lies on that line
  (or at its line feed), and the offset is the start of that line plus \<open>column - 1\<close>.
  \<open>buildSnippet\<close> returns two lines joined by one line feed: that source line, which
  holds no line feed, and \<open>column - 1\<close> spaces followed by a caret. Scenario C: the
  text \<open>{"id": 1, invalid}\<close> and offset 10 give line 1, column 11 and a caret line of
  10 spaces and the caret.
\<close>

theorem locator_inside_text:
  assumes "0 \<le> position" "position < int (length input)"
  shows "1 \<le> line (getLineColumn input position)
    \<and> line (getLineColumn input position) \<le> int (length (split input LF))
    \<and> 1 \<le> column (getLineColumn input position)
    \<and> column (getLineColumn input position)
        \<le> int (length (split input LF ! nat (line (getLineColumn input position) - 1))) + 1
    \<and> position = span (take (nat (line (getLineColumn input position) - 1)) (split input LF))
        + (column (getLineColumn input position) - 1)
    \<and> buildSnippet input position =
        Inr (split input LF ! nat (line (getLineColumn input position) - 1) @ [LF]
             @ replicate (nat (column (getLineColumn input position) - 1)) SPACE @ [CARET])
    \<and> LF \<notin> set (split input LF ! nat (line (getLineColumn input position) - 1))
    \<and> getLineColumn (js ''{\"id\": 1, invalid}'') 10 = \<lparr>line = 1, column = 11\<rparr>
    \<and> buildSnippet (js ''{\"id\": 1, invalid}'') 10 =
        Inr (js ''{\"id\": 1, invalid}'' @ [LF] @ replicate 10 SPACE @ [CARET])"
proof -
  have c: "getLineColumn (js ''{\"id\": 1, invalid}'') 10 = \<lparr>line = 1, column = 11\<rparr>"
    by code_simp
  have d: "buildSnippet (js ''{\"id\": 1, invalid}'') 10 =
        Inr (js ''{\"id\": 1, invalid}'' @ [LF] @ replicate 10 SPACE @ [CARET])"
    by code_simp
  show ?thesis
    using locator_at [of position input] assms c d by simp
qed

theorem locator_inside_text_witness:
  "(0::int) \<le> 4 \<and> (4::int) < int (length (js ''ab'' @ [LF] @ js ''cd''))
   \<and> getLineColumn (js ''ab'' @ [LF] @ js ''cd'') 4 = \<lparr>line = 2, column = 2\<rparr>
   \<and> buildSnippet (js ''ab'' @ [LF] @ js ''cd'') 4 = Inr (js ''cd'' @ [LF, SPACE, CARET])"
proof -
  have h1: "(0::int) \<le> 4" by simp
  have h2: "(4::int) < int (length (js ''ab'' @ [LF] @ js ''cd''))" by (simp add: js_def)
  have a: "getLineColumn (js ''ab'' @ [LF] @ js ''cd'') 4 = \<lparr>line = 2, column = 2\<rparr>"
    by code_simp
  have b: "split (js ''ab'' @ [LF] @ js ''cd'') LF = [js ''ab'', js ''cd'']" by code_simp
  show ?thesis
    using h1 h2 locator_inside_text [OF h1 h2] unfolding a b by simp
qed

text \<open>
  Claim C3, as the code has it. When the offset is greater than the length of the
  text no line satisfies the test of the loop, and the functions return what stands
  after the loop: \<open>getLineColumn\<close> returns line 1, column 1 and \<open>buildSnippet\<close> returns
  the input unchanged. Neither fails.
\<close>

theorem locator_past_end:
  "int (length input) < position \<Longrightarrow>
     getLineColumn input position = \<lparr>line = 1, column = 1\<rparr> \<and>
     buildSnippet input position = Inr input"
  using loops_past_end [of 0 "split input LF" position 0]
  by (simp add: getLineColumn_def buildSnippet_def span_split)

theorem locator_past_end_witness:
  "int (length (js ''abc'')) < 7 \<and>
   getLineColumn (js ''abc'') 7 = \<lparr>line = 1, column = 1\<rparr> \<and>
   buildSnippet (js ''abc'') 7 = Inr (js ''abc'')"
proof -
  have h: "int (length (js ''abc'')) < 7" by (simp add: js_def)
  show ?thesis using h locator_past_end [OF h] by simp
qed

text \<open>
  The claim as written fails on the text \<open>ab\ncd\<close> and offset 10: the last line is
  line 2, of length 2, so the claim gives line 2, column 3, and the code returns
  line 1, column 1.
\<close>

theorem locator_past_end_counterexample:
  "int (length (js ''ab'' @ [LF] @ js ''cd'')) < 10
   \<and> int (length (split (js ''ab'' @ [LF] @ js ''cd'') LF)) = 2
   \<and> int (length (last (split (js ''ab'' @ [LF] @ js ''cd'') LF))) + 1 = 3
   \<and> getLineColumn (js ''ab'' @ [LF] @ js ''cd'') 10 \<noteq> \<lparr>line = 2, column = 3\<rparr>
   \<and> getLineColumn (js ''ab'' @ [LF] @ js ''cd'') 10 = \<lparr>line = 1, column = 1\<rparr>"
  by code_simp

section \<open>Strings and comments in stripComments\<close>

text \<open>The loop body on each of the flag values it passes through, by the next characters.\<close>

lemmas flag_defs = initFlags_def inStringFlags_def escapedFlags_def inCommentFlags_def
  inMultilineFlags_def

lemma specials_distinct:
  "LF \<noteq> DQUOTE" "LF \<noteq> STAR" "LF \<noteq> SLASH" "LF \<noteq> BACKSLASH" "DQUOTE \<noteq> LF" "DQUOTE \<noteq> STAR" "DQUOTE \<noteq> SLASH" "DQUOTE \<noteq> BACKSLASH" "STAR \<noteq> LF" "STAR \<noteq> DQUOTE" "STAR \<noteq> SLASH" "STAR \<noteq> BACKSLASH" "SLASH \<noteq> LF" "SLASH \<noteq> DQUOTE" "SLASH \<noteq> STAR" "SLASH \<noteq> BACKSLASH" "BACKSLASH \<noteq> LF" "BACKSLASH \<noteq> DQUOTE" "BACKSLASH \<noteq> STAR" "BACKSLASH \<noteq> SLASH"
  by (simp_all add: SLASH_def STAR_def DQUOTE_def BACKSLASH_def LF_def)

lemma normal_quote: "stripLoop initFlags (DQUOTE # cs) = DQUOTE # stripLoop inStringFlags cs"
  by (simp add: stripLoop_normal flag_defs)

lemma normal_line: "stripLoop initFlags (SLASH # SLASH # cs) = stripLoop inCommentFlags cs"
  by (simp add: stripLoop_normal flag_defs nextChar_def specials_distinct)

lemma normal_block: "stripLoop initFlags (SLASH # STAR # cs) = stripLoop inMultilineFlags cs"
  by (simp add: stripLoop_normal flag_defs nextChar_def specials_distinct)

lemma normal_slash_end: "stripLoop initFlags [SLASH] = [SLASH]"
  by (simp add: stripLoop_normal flag_defs nextChar_def specials_distinct)

lemma normal_slash_other:
  "c \<noteq> SLASH \<Longrightarrow> c \<noteq> STAR \<Longrightarrow>
     stripLoop initFlags (SLASH # c # cs) = SLASH # stripLoop initFlags (c # cs)"
  by (simp add: stripLoop_normal flag_defs nextChar_def specials_distinct)

lemma normal_other:
  "c \<noteq> DQUOTE \<Longrightarrow> c \<noteq> SLASH \<Longrightarrow> stripLoop initFlags (c # cs) = c # stripLoop initFlags cs"
  by (simp add: stripLoop_normal flag_defs)

lemma string_backslash:
  "stripLoop inStringFlags (BACKSLASH # cs) = BACKSLASH # stripLoop escapedFlags cs"
  by (simp add: stripLoop_string flag_defs)

lemma string_quote: "stripLoop inStringFlags (DQUOTE # cs) = DQUOTE # stripLoop initFlags cs"
  by (simp add: stripLoop_string flag_defs specials_distinct)

lemma string_other:
  "c \<noteq> BACKSLASH \<Longrightarrow> c \<noteq> DQUOTE \<Longrightarrow>
     stripLoop inStringFlags (c # cs) = c # stripLoop inStringFlags cs"
  by (simp add: stripLoop_string flag_defs)

lemma escaped_any: "stripLoop escapedFlags (c # cs) = c # stripLoop inStringFlags cs"
  by (simp add: stripLoop_escape flag_defs)

lemma comment_LF: "stripLoop inCommentFlags (LF # cs) = LF # stripLoop initFlags cs"
  by (simp add: stripLoop_comment flag_defs)

lemma comment_other: "c \<noteq> LF \<Longrightarrow> stripLoop inCommentFlags (c # cs) = stripLoop inCommentFlags cs"
  by (simp add: stripLoop_comment flag_defs)

lemma multi_close: "stripLoop inMultilineFlags (STAR # SLASH # cs) = stripLoop initFlags cs"
  by (simp add: stripLoop_multi flag_defs nextChar_def)

lemma multi_LF: "stripLoop inMultilineFlags (LF # cs) = LF # stripLoop inMultilineFlags cs"
  by (simp add: stripLoop_multi flag_defs specials_distinct)

lemma multi_star_end: "stripLoop inMultilineFlags [STAR] = []"
  by (simp add: stripLoop_multi flag_defs nextChar_def specials_distinct)

lemma multi_star_other:
  "c \<noteq> SLASH \<Longrightarrow> stripLoop inMultilineFlags (STAR # c # cs) = stripLoop inMultilineFlags (c # cs)"
  by (simp add: stripLoop_multi flag_defs nextChar_def specials_distinct)

lemma multi_other:
  "c \<noteq> STAR \<Longrightarrow> c \<noteq> LF \<Longrightarrow> stripLoop inMultilineFlags (c # cs) = stripLoop inMultilineFlags cs"
  by (simp add: stripLoop_multi flag_defs)

lemma normal_head:
  "d \<noteq> SLASH \<Longrightarrow> \<exists>X. stripLoop initFlags (d # r) = d # X"
  by (cases "d = DQUOTE") (simp_all add: normal_quote normal_other)

lemma rescan:
  "stripLoop initFlags (stripLoop initFlags cs) = stripLoop initFlags cs
   \<and> stripLoop inStringFlags (stripLoop inStringFlags cs) = stripLoop inStringFlags cs
   \<and> stripLoop escapedFlags (stripLoop escapedFlags cs) = stripLoop escapedFlags cs
   \<and> stripLoop initFlags (stripLoop inCommentFlags cs) = stripLoop inCommentFlags cs
   \<and> stripLoop initFlags (stripLoop inMultilineFlags cs) = stripLoop inMultilineFlags cs"
proof (induction "length cs" arbitrary: cs rule: less_induct)
  case less
  show ?case
  proof (cases cs)
    case Nil
    then show ?thesis by simp
  next
    case (Cons c r)
    have ih: "stripLoop initFlags (stripLoop initFlags r) = stripLoop initFlags r"
      "stripLoop inStringFlags (stripLoop inStringFlags r) = stripLoop inStringFlags r"
      "stripLoop escapedFlags (stripLoop escapedFlags r) = stripLoop escapedFlags r"
      "stripLoop initFlags (stripLoop inCommentFlags r) = stripLoop inCommentFlags r"
      "stripLoop initFlags (stripLoop inMultilineFlags r) = stripLoop inMultilineFlags r"
      using less [of r] Cons by simp_all
    have ih2: "stripLoop initFlags (stripLoop initFlags r') = stripLoop initFlags r'"
      "stripLoop initFlags (stripLoop inCommentFlags r') = stripLoop inCommentFlags r'"
      "stripLoop initFlags (stripLoop inMultilineFlags r') = stripLoop inMultilineFlags r'"
      if "r = d # r'" for d r'
      using less [of r'] Cons that by simp_all
    have n: "stripLoop initFlags (stripLoop initFlags (c # r)) = stripLoop initFlags (c # r)"
    proof (cases "c = DQUOTE")
      case True
      then show ?thesis by (simp add: normal_quote ih)
    next
      case nq: False
      show ?thesis
      proof (cases "c = SLASH")
        case False
        then show ?thesis using nq by (simp add: normal_other ih)
      next
        case True
        show ?thesis
        proof (cases r)
          case Nil
          then show ?thesis using True by (simp add: normal_slash_end)
        next
          case (Cons d r')
          consider (line) "d = SLASH" | (block) "d = STAR" | (other) "d \<noteq> SLASH" "d \<noteq> STAR"
            by blast
          then show ?thesis
          proof cases
            case line
            then show ?thesis using True Cons ih2 [OF Cons] by (simp add: normal_line)
          next
            case block
            then show ?thesis using True Cons ih2 [OF Cons] by (simp add: normal_block)
          next
            case other
            obtain X where X: "stripLoop initFlags (d # r') = d # X"
              using normal_head [OF other(1)] by blast
            have "stripLoop initFlags (stripLoop initFlags (SLASH # d # r')) =
                stripLoop initFlags (SLASH # d # X)"
              using other X by (simp add: normal_slash_other)
            also have "\<dots> = SLASH # stripLoop initFlags (d # X)"
              using other by (simp add: normal_slash_other)
            also have "\<dots> = SLASH # stripLoop initFlags (d # r')"
              using ih(1) X Cons by simp
            also have "\<dots> = stripLoop initFlags (SLASH # d # r')"
              using other by (simp add: normal_slash_other)
            finally show ?thesis using True Cons by simp
          qed
        qed
      qed
    qed
    have s: "stripLoop inStringFlags (stripLoop inStringFlags (c # r)) = stripLoop inStringFlags (c # r)"
    proof -
      consider (bs) "c = BACKSLASH" | (q) "c = DQUOTE" | (o) "c \<noteq> BACKSLASH" "c \<noteq> DQUOTE"
        by blast
      then show ?thesis
      proof cases
        case bs
        then show ?thesis by (simp add: string_backslash ih)
      next
        case q
        then show ?thesis by (simp add: string_quote ih)
      next
        case o
        then show ?thesis by (simp add: string_other ih)
      qed
    qed
    have e: "stripLoop escapedFlags (stripLoop escapedFlags (c # r)) = stripLoop escapedFlags (c # r)"
      by (simp add: escaped_any ih)
    have l: "stripLoop initFlags (stripLoop inCommentFlags (c # r)) = stripLoop inCommentFlags (c # r)"
    proof (cases "c = LF")
      case True
      then show ?thesis by (simp add: comment_LF normal_other specials_distinct ih)
    next
      case False
      then show ?thesis by (simp add: comment_other ih)
    qed
    have b: "stripLoop initFlags (stripLoop inMultilineFlags (c # r)) = stripLoop inMultilineFlags (c # r)"
    proof -
      consider (lf) "c = LF" | (star) "c = STAR" | (o) "c \<noteq> STAR" "c \<noteq> LF"
        by blast
      then show ?thesis
      proof cases
        case lf
        then show ?thesis by (simp add: multi_LF normal_other specials_distinct ih)
      next
        case o
        then show ?thesis by (simp add: multi_other ih)
      next
        case star
        show ?thesis
        proof (cases r)
          case Nil
          then show ?thesis using star by (simp add: multi_star_end)
        next
          case (Cons d r')
          show ?thesis
          proof (cases "d = SLASH")
            case True
            then show ?thesis using star Cons ih2 [OF Cons] by (simp add: multi_close)
          next
            case False
            then show ?thesis using star Cons ih(5) by (simp add: multi_star_other)
          qed
        qed
      qed
    qed
    show ?thesis unfolding Cons using n s e l b by blast
  qed
qed

text \<open>
  Claim C10. \<open>stripComments\<close> is idempotent: stripping the output again changes
  nothing. A slash the loop pushes is followed in the output by the character that
  followed it in the input, which is neither a slash nor a star, so the output has no
  comment opener outside a string.
\<close>

theorem stripComments_idempotent: "stripComments (stripComments s) = stripComments s"
  using rescan [of s] by (simp add: stripComments_def)

lemma code_run:
  "DQUOTE \<notin> set t \<Longrightarrow> noOpener (t @ take 1 rest) \<Longrightarrow>
     stripLoop initFlags (t @ rest) = t @ stripLoop initFlags rest"
proof (induction t)
  case Nil
  show ?case by simp
next
  case (Cons c t)
  note prems = Cons.prems
  have q: "c \<noteq> DQUOTE" "DQUOTE \<notin> set t" using Cons.prems(1) by auto
  have no: "noOpener (t @ take 1 rest)"
    using Cons.prems(2) by (cases "t @ take 1 rest") simp_all
  have ih: "stripLoop initFlags (t @ rest) = t @ stripLoop initFlags rest"
    using Cons.IH q(2) no by simp
  show ?case
  proof (cases "c = SLASH")
    case False
    then show ?thesis using q ih by (simp add: normal_other)
  next
    case True
    show ?thesis
    proof (cases "t @ rest")
      case Nil
      then show ?thesis using True by (simp add: normal_slash_end)
    next
      case (Cons d r)
      have "t @ take 1 rest = d # tl (t @ take 1 rest)"
        using Cons by (cases t; cases rest) auto
      then have "noOpener (SLASH # d # tl (t @ take 1 rest))"
        using prems(2) True by simp
      then have "d \<noteq> SLASH" "d \<noteq> STAR" by auto
      then have "stripLoop initFlags (SLASH # d # r) = SLASH # stripLoop initFlags (d # r)"
        by (rule normal_slash_other)
      then show ?thesis using True Cons ih by simp
    qed
  qed
qed

lemma string_run:
  "stringBody body \<Longrightarrow>
     stripLoop inStringFlags (body @ DQUOTE # rest) = body @ DQUOTE # stripLoop initFlags rest"
proof (induction body rule: stringBody.induct)
  case 1
  show ?case by (simp add: string_quote)
next
  case (2 c cs)
  show ?case
  proof (cases "c = BACKSLASH")
    case True
    then obtain d cs' where cs: "cs = d # cs'" "stringBody cs'"
      using "2.prems" by (cases cs) simp_all
    then have "stripLoop inStringFlags (cs' @ DQUOTE # rest) = cs' @ DQUOTE # stripLoop initFlags rest"
      using "2.IH"(1) True by simp
    then show ?thesis using True cs by (simp add: string_backslash escaped_any)
  next
    case False
    then have nq: "c \<noteq> DQUOTE" and b: "stringBody cs"
      using "2.prems" by (auto split: if_splits)
    then show ?thesis using False "2.IH"(2) by (simp add: string_other)
  qed
qed

lemma comment_run:
  "LF \<notin> set body \<Longrightarrow> stripLoop inCommentFlags (body @ rest) = stripLoop inCommentFlags rest"
  by (induction body) (auto simp: comment_other)

lemma comment_end:
  "take 1 rest \<in> {[], [LF]} \<Longrightarrow> stripLoop inCommentFlags rest = stripLoop initFlags rest"
  by (cases rest) (simp_all add: comment_LF normal_other specials_distinct)

lemma multi_run:
  "noCloser body \<Longrightarrow>
     stripLoop inMultilineFlags (body @ STAR # SLASH # rest) =
       filter (\<lambda>c. c = LF) body @ stripLoop initFlags rest"
proof (induction body)
  case Nil
  show ?case by (simp add: multi_close)
next
  case (Cons c body)
  have nc: "noCloser body" using Cons.prems by (cases body) simp_all
  have ih: "stripLoop inMultilineFlags (body @ STAR # SLASH # rest) =
       filter (\<lambda>c. c = LF) body @ stripLoop initFlags rest"
    using Cons.IH nc by simp
  consider (lf) "c = LF" | (star) "c = STAR" | (o) "c \<noteq> STAR" "c \<noteq> LF" by blast
  then show ?case
  proof cases
    case lf
    then show ?thesis using ih by (simp add: multi_LF)
  next
    case o
    then show ?thesis using ih by (simp add: multi_other)
  next
    case star
    obtain d r where dr: "body @ STAR # SLASH # rest = d # r" by (cases body) simp_all
    have "d \<noteq> SLASH"
    proof (cases body)
      case Nil
      then show ?thesis using dr by (auto simp: specials_distinct)
    next
      case (Cons a as)
      then show ?thesis using dr star \<open>noCloser (c # body)\<close> by auto
    qed
    then have "stripLoop inMultilineFlags (STAR # d # r) = stripLoop inMultilineFlags (d # r)"
      by (rule multi_star_other)
    then show ?thesis using star dr ih by (simp add: specials_distinct)
  qed
qed

lemma open_string_run: "openBody body \<Longrightarrow> stripLoop inStringFlags body = body"
proof (induction body rule: openBody.induct)
  case 1
  show ?case by simp
next
  case (2 c cs)
  show ?case
  proof (cases "c = BACKSLASH")
    case True
    show ?thesis
    proof (cases cs)
      case Nil
      then show ?thesis using True by (simp add: string_backslash)
    next
      case (Cons d cs')
      then have "openBody cs'" using "2.prems" True by simp
      then have "stripLoop inStringFlags cs' = cs'" using "2.IH"(1) True Cons by simp
      then show ?thesis using True Cons by (simp add: string_backslash escaped_any)
    qed
  next
    case False
    then have nq: "c \<noteq> DQUOTE" and b: "openBody cs"
      using "2.prems" by (auto split: if_splits)
    then show ?thesis using False "2.IH"(2) by (simp add: string_other)
  qed
qed

lemma open_multi_run:
  "noCloser body \<Longrightarrow> stripLoop inMultilineFlags body = filter (\<lambda>c. c = LF) body"
proof (induction body)
  case Nil
  show ?case by simp
next
  case (Cons c body)
  note prems = Cons.prems
  have nc: "noCloser body" using Cons.prems by (cases body) simp_all
  have ih: "stripLoop inMultilineFlags body = filter (\<lambda>c. c = LF) body"
    using Cons.IH nc by simp
  consider (lf) "c = LF" | (star) "c = STAR" | (o) "c \<noteq> STAR" "c \<noteq> LF" by blast
  then show ?case
  proof cases
    case lf
    then show ?thesis using ih by (simp add: multi_LF)
  next
    case o
    then show ?thesis using ih by (simp add: multi_other)
  next
    case star
    show ?thesis
    proof (cases body)
      case Nil
      then show ?thesis using star by (simp add: multi_star_end specials_distinct)
    next
      case (Cons d r)
      then have "d \<noteq> SLASH" using star prems by auto
      then have "stripLoop inMultilineFlags (STAR # d # r) = stripLoop inMultilineFlags (d # r)"
        by (rule multi_star_other)
      then show ?thesis using star Cons ih by (simp add: specials_distinct)
    qed
  qed
qed

lemma tokens_strip:
  "wellFormed ts \<Longrightarrow>
     stripLoop initFlags (concat (map render ts)) = concat (map stripped ts)"
proof (induction ts rule: wellFormed.induct)
  case 1
  show ?case by simp
next
  case (2 t ts)
  then show ?case by (simp add: code_run)
next
  case (3 body ts)
  then show ?case by (simp add: normal_quote string_run)
next
  case (4 body ts)
  then show ?case by (simp add: normal_line comment_run comment_end)
next
  case (5 body ts)
  then show ?case by (simp add: normal_block multi_run)
next
  case (6 body ts)
  then show ?case by (simp add: normal_quote open_string_run)
next
  case (7 body ts)
  then show ?case by (simp add: normal_block open_multi_run)
qed

lemma noOpener_other: "c \<noteq> SLASH \<Longrightarrow> noOpener (c # take 1 xs)"
  by (cases xs) simp_all

lemma noOpener_slash: "d \<noteq> SLASH \<Longrightarrow> d \<noteq> STAR \<Longrightarrow> noOpener (SLASH # take 1 (d # xs))"
  by simp

lemma noCloser_other: "c \<noteq> STAR \<Longrightarrow> noCloser body \<Longrightarrow> noCloser (c # body)"
  by (cases body) simp_all

lemma noCloser_star: "noCloser body \<Longrightarrow> body = [] \<or> hd body \<noteq> SLASH \<Longrightarrow> noCloser (STAR # body)"
  by (cases body) simp_all

lemma tokenize:
  "(\<exists>ts. wellFormed ts \<and> concat (map render ts) = s)
   \<and> (\<exists>body. (openBody body \<and> s = body)
         \<or> (stringBody body \<and> (\<exists>ts. wellFormed ts \<and> s = body @ DQUOTE # concat (map render ts))))
   \<and> (\<exists>body ts. LF \<notin> set body \<and> wellFormed ts \<and> take 1 (concat (map render ts)) \<in> {[], [LF]}
         \<and> s = body @ concat (map render ts))
   \<and> (\<exists>body. noCloser body
         \<and> (s = body \<or> (\<exists>ts. wellFormed ts \<and> s = body @ STAR # SLASH # concat (map render ts))))"
  (is "?N s \<and> ?S s \<and> ?L s \<and> ?B s")
proof (induction "length s" arbitrary: s rule: less_induct)
  case less
  show ?case
  proof (cases s)
    case Nil
    have "?N []" by (rule exI [of _ "[]"]) simp
    moreover have "?S []" by (rule exI [of _ "[]"]) simp
    moreover have "?L []" by (rule exI [of _ "[]"], rule exI [of _ "[]"]) simp
    moreover have "?B []" by (rule exI [of _ "[]"]) simp
    ultimately show ?thesis using Nil by blast
  next
    case (Cons c r)
    have ihN: "?N r" and ihS: "?S r" and ihL: "?L r" and ihB: "?B r"
      using less [of r] Cons by simp_all
    have ih2N: "?N r'" and ih2S: "?S r'" and ih2L: "?L r'" and ih2B: "?B r'"
      if "r = d # r'" for d r'
      using less [of r'] Cons that by simp_all
    have n: "?N (c # r)"
    proof -
      consider (quote) "c = DQUOTE" | (slash) "c = SLASH" | (other) "c \<noteq> DQUOTE" "c \<noteq> SLASH"
        by blast
      then show ?thesis
      proof cases
        case quote
        from ihS obtain body where
          "(openBody body \<and> r = body)
           \<or> (stringBody body \<and> (\<exists>ts. wellFormed ts \<and> r = body @ DQUOTE # concat (map render ts)))"
          by blast
        then show ?thesis
        proof
          assume "openBody body \<and> r = body"
          then have "wellFormed [UnterminatedString body]
              \<and> concat (map render [UnterminatedString body]) = c # r"
            using quote by simp
          then show ?thesis by blast
        next
          assume "stringBody body \<and> (\<exists>ts. wellFormed ts \<and> r = body @ DQUOTE # concat (map render ts))"
          then obtain ts where "stringBody body" "wellFormed ts"
            "r = body @ DQUOTE # concat (map render ts)" by blast
          then have "wellFormed (StringLiteral body # ts)
              \<and> concat (map render (StringLiteral body # ts)) = c # r"
            using quote by simp
          then show ?thesis by blast
        qed
      next
        case other
        from ihN obtain ts where ts: "wellFormed ts" "concat (map render ts) = r" by blast
        have "wellFormed (Code [c] # ts) \<and> concat (map render (Code [c] # ts)) = c # r"
          using ts other noOpener_other [of c r] by simp
        then show ?thesis by blast
      next
        case slash
        show ?thesis
        proof (cases r)
          case Nil
          have "wellFormed [Code [SLASH]] \<and> concat (map render [Code [SLASH]]) = c # r"
            using slash Nil by (simp add: specials_distinct)
          then show ?thesis by blast
        next
          case (Cons d r')
          consider (line) "d = SLASH" | (block) "d = STAR" | (plain) "d \<noteq> SLASH" "d \<noteq> STAR"
            by blast
          then show ?thesis
          proof cases
            case line
            from ih2L [OF Cons] obtain body ts where
              "LF \<notin> set body" "wellFormed ts" "take 1 (concat (map render ts)) \<in> {[], [LF]}"
              "r' = body @ concat (map render ts)" by blast
            then have "wellFormed (LineComment body # ts)
                \<and> concat (map render (LineComment body # ts)) = c # r"
              using slash line Cons by simp
            then show ?thesis by blast
          next
            case block
            from ih2B [OF Cons] obtain body where b: "noCloser body"
              "r' = body \<or> (\<exists>ts. wellFormed ts \<and> r' = body @ STAR # SLASH # concat (map render ts))"
              by blast
            from b(2) show ?thesis
            proof
              assume "r' = body"
              then have "wellFormed [UnterminatedBlock body]
                  \<and> concat (map render [UnterminatedBlock body]) = c # r"
                using slash block Cons b(1) by simp
              then show ?thesis by blast
            next
              assume "\<exists>ts. wellFormed ts \<and> r' = body @ STAR # SLASH # concat (map render ts)"
              then obtain ts where "wellFormed ts" "r' = body @ STAR # SLASH # concat (map render ts)"
                by blast
              then have "wellFormed (BlockComment body # ts)
                  \<and> concat (map render (BlockComment body # ts)) = c # r"
                using slash block Cons b(1) by simp
              then show ?thesis by blast
            qed
          next
            case plain
            from ihN obtain ts where ts: "wellFormed ts" "concat (map render ts) = r" by blast
            have "wellFormed (Code [SLASH] # ts) \<and> concat (map render (Code [SLASH] # ts)) = c # r"
              using ts slash plain Cons by (simp add: specials_distinct)
            then show ?thesis by blast
          qed
        qed
      qed
    qed
    have s: "?S (c # r)"
    proof -
      consider (bs) "c = BACKSLASH" | (quote) "c = DQUOTE" | (other) "c \<noteq> BACKSLASH" "c \<noteq> DQUOTE"
        by blast
      then show ?thesis
      proof cases
        case quote
        from ihN obtain ts where ts: "wellFormed ts" "concat (map render ts) = r" by blast
        then have "stringBody [] \<and> (\<exists>ts. wellFormed ts \<and> c # r = [] @ DQUOTE # concat (map render ts))"
          using quote by auto
        then show ?thesis by blast
      next
        case other
        from ihS obtain body where
          "(openBody body \<and> r = body)
           \<or> (stringBody body \<and> (\<exists>ts. wellFormed ts \<and> r = body @ DQUOTE # concat (map render ts)))"
          by blast
        then have "(openBody (c # body) \<and> c # r = c # body)
           \<or> (stringBody (c # body)
               \<and> (\<exists>ts. wellFormed ts \<and> c # r = (c # body) @ DQUOTE # concat (map render ts)))"
          using other by auto
        then show ?thesis by blast
      next
        case bs
        show ?thesis
        proof (cases r)
          case Nil
          have "openBody [BACKSLASH] \<and> c # r = [BACKSLASH]" using bs Nil by simp
          then show ?thesis by blast
        next
          case (Cons d r')
          from ih2S [OF Cons] obtain body where
            "(openBody body \<and> r' = body)
             \<or> (stringBody body \<and> (\<exists>ts. wellFormed ts \<and> r' = body @ DQUOTE # concat (map render ts)))"
            by blast
          then have "(openBody (BACKSLASH # d # body) \<and> c # r = BACKSLASH # d # body)
             \<or> (stringBody (BACKSLASH # d # body)
                 \<and> (\<exists>ts. wellFormed ts
                       \<and> c # r = (BACKSLASH # d # body) @ DQUOTE # concat (map render ts)))"
            using bs Cons by auto
          then show ?thesis by blast
        qed
      qed
    qed
    have l: "?L (c # r)"
    proof (cases "c = LF")
      case True
      from ihN obtain ts where ts: "wellFormed ts" "concat (map render ts) = r" by blast
      have "LF \<notin> set [] \<and> wellFormed (Code [LF] # ts)
          \<and> take 1 (concat (map render (Code [LF] # ts))) \<in> {[], [LF]}
          \<and> c # r = [] @ concat (map render (Code [LF] # ts))"
        using ts True noOpener_other [of LF r] by (simp add: specials_distinct)
      then show ?thesis by blast
    next
      case False
      from ihL obtain body ts where "LF \<notin> set body" "wellFormed ts"
        "take 1 (concat (map render ts)) \<in> {[], [LF]}" "r = body @ concat (map render ts)"
        by blast
      then have "LF \<notin> set (c # body) \<and> wellFormed ts
          \<and> take 1 (concat (map render ts)) \<in> {[], [LF]}
          \<and> c # r = (c # body) @ concat (map render ts)"
        using False by auto
      then show ?thesis by blast
    qed
    have b: "?B (c # r)"
    proof (cases "c = STAR")
      case False
      from ihB obtain body where "noCloser body"
        "r = body \<or> (\<exists>ts. wellFormed ts \<and> r = body @ STAR # SLASH # concat (map render ts))"
        by blast
      then have "noCloser (c # body)
          \<and> (c # r = c # body
              \<or> (\<exists>ts. wellFormed ts \<and> c # r = (c # body) @ STAR # SLASH # concat (map render ts)))"
        using False noCloser_other [of c body] by auto
      then show ?thesis by blast
    next
      case True
      show ?thesis
      proof (cases r)
        case Nil
        have "noCloser [STAR] \<and> c # r = [STAR]" using True Nil by simp
        then show ?thesis by blast
      next
        case (Cons d r')
        show ?thesis
        proof (cases "d = SLASH")
          case slash: True
          from ih2N [OF Cons] obtain ts where "wellFormed ts" "concat (map render ts) = r'"
            by blast
          then have "noCloser []
              \<and> (\<exists>ts. wellFormed ts \<and> c # r = [] @ STAR # SLASH # concat (map render ts))"
            using True slash Cons by auto
          then show ?thesis by blast
        next
          case False
          from ihB obtain body where body: "noCloser body"
            "r = body \<or> (\<exists>ts. wellFormed ts \<and> r = body @ STAR # SLASH # concat (map render ts))"
            by blast
          have "body = [] \<or> hd body \<noteq> SLASH"
            using body(2) Cons False by (cases body) auto
          then have "noCloser (STAR # body)" using body(1) by (rule noCloser_star [rotated])
          then have "noCloser (STAR # body)
              \<and> (c # r = STAR # body
                  \<or> (\<exists>ts. wellFormed ts \<and> c # r = (STAR # body) @ STAR # SLASH # concat (map render ts)))"
            using body(2) True by auto
          then show ?thesis by blast
        qed
      qed
    qed
    show ?thesis unfolding Cons using n s l b by blast
  qed
qed

lemma every_text_has_tokens: "\<exists>ts. wellFormed ts \<and> concat (map render ts) = s"
  using tokenize [of s] by blast

text \<open>
  Claim C5. Every text is the text of a well formed token sequence, and for every
  well formed token sequence the output of \<open>stripComments\<close> on its text is the
  sequence of what is left of each token. So a string literal is copied unchanged
  whatever its body holds, also \<open>//\<close> and \<open>/*\<close>; a \<open>//\<close> comment outside a string is
  removed up to the end of the line and a \<open>/*\<close> comment up to and including its
  \<open>*/\<close>, but for the line feeds in it. The texts with balanced double quotes are those
  whose tokens hold no unterminated string literal; the statement holds without that
  restriction. Scenario B: the output for \<open>{"a": "http://x"}\<close> is the input.
\<close>

theorem strings_kept_comments_stripped:
  "(wellFormed ts \<longrightarrow> stripComments (concat (map render ts)) = concat (map stripped ts))
   \<and> (\<exists>ts'. wellFormed ts' \<and> concat (map render ts') = s)
   \<and> stripComments (js ''{\"a\": \"http://x\"}'') = js ''{\"a\": \"http://x\"}''"
proof -
  have "stripComments (js ''{\"a\": \"http://x\"}'') = js ''{\"a\": \"http://x\"}''"
    by code_simp
  then show ?thesis
    using every_text_has_tokens [of s] by (simp add: stripComments_def tokens_strip)
qed

theorem strings_kept_comments_stripped_witness:
  "wellFormed [Code (js ''{''), StringLiteral (js ''http://x/*y''), Code (js '': ''),
      BlockComment (js ''a'' @ [LF] @ js ''*b''), Code (js ''1, ''), LineComment (js '' \"c''),
      Code ([LF] @ js ''}'')]
   \<and> concat (map render [Code (js ''{''), StringLiteral (js ''http://x/*y''), Code (js '': ''),
      BlockComment (js ''a'' @ [LF] @ js ''*b''), Code (js ''1, ''), LineComment (js '' \"c''),
      Code ([LF] @ js ''}'')])
     = js ''{\"http://x/*y\": /*a'' @ [LF] @ js ''*b*/1, // \"c'' @ [LF] @ js ''}''
   \<and> stripComments (js ''{\"http://x/*y\": /*a'' @ [LF] @ js ''*b*/1, // \"c'' @ [LF] @ js ''}'')
     = js ''{\"http://x/*y\": '' @ [LF] @ js ''1, '' @ [LF] @ js ''}''"
proof -
  let ?ts = "[Code (js ''{''), StringLiteral (js ''http://x/*y''), Code (js '': ''),
      BlockComment (js ''a'' @ [LF] @ js ''*b''), Code (js ''1, ''), LineComment (js '' \"c''),
      Code ([LF] @ js ''}'')]"
  have w: "wellFormed ?ts" by code_simp
  have r: "concat (map render ?ts)
     = js ''{\"http://x/*y\": /*a'' @ [LF] @ js ''*b*/1, // \"c'' @ [LF] @ js ''}''"
    by code_simp
  have s: "concat (map stripped ?ts) = js ''{\"http://x/*y\": '' @ [LF] @ js ''1, '' @ [LF] @ js ''}''"
    by code_simp
  show ?thesis
    using w strings_kept_comments_stripped [of ?ts] unfolding r s by simp
qed

section \<open>Further properties\<close>

lemma subseq_tl: "subseq xs (tl cs) \<Longrightarrow> subseq xs (c # cs)"
  by (cases cs) (auto intro: subseq_Cons' list_emb_Cons)

lemma subseq_skip: "subseq xs cs \<Longrightarrow> subseq xs (c # cs)"
  by (rule list_emb_Cons)

lemma stripLoop_subseq: "subseq (stripLoop f cs) cs"
proof (induction f cs rule: scan_induct)
  case (Nil f)
  show ?case by simp
next
  case (Cons f c cs)
  show ?case
  proof (cases f rule: flag_cases)
    case esc
    then show ?thesis using Cons(1) by (simp add: stripLoop_escape)
  next
    case str
    then show ?thesis using Cons(1) by (simp add: stripLoop_string)
  next
    case lin
    then show ?thesis using Cons(1) by (simp add: stripLoop_comment subseq_skip)
  next
    case blk
    then show ?thesis using Cons by (simp add: stripLoop_multi subseq_tl subseq_skip)
  next
    case nrm
    then show ?thesis using Cons by (simp add: stripLoop_normal subseq_tl subseq_skip)
  qed
qed

text \<open>
  \<open>stripComments\<close> only removes characters: its output is the input with some
  characters left out, the others in their order.
\<close>

theorem stripComments_only_removes: "subseq (stripComments s) s"
  by (simp add: stripComments_def stripLoop_subseq)

text \<open>
  Scenario A of the specification: a line comment is removed and its line feed kept.
\<close>

theorem scenario_A:
  "stripComments (js ''{\"id\": 1, // comment'' @ [LF] @ js ''\"name\": \"Paul\"}'')
     = js ''{\"id\": 1, '' @ [LF] @ js ''\"name\": \"Paul\"}''"
  by code_simp

text \<open>
  Scenario D of the specification: a record cut by a chunk boundary is emitted whole.
\<close>

theorem scenario_D:
  "feedThenFlush [js ''{\"id\":'', js ''1}'' @ [LF] @ js ''{\"id\":2}'' @ [LF]] =
     [\<lparr>rec_line = js ''{\"id\":1}'', rec_lineNumber = 1\<rparr>,
      \<lparr>rec_line = js ''{\"id\":2}'', rec_lineNumber = 2\<rparr>]"
  by code_simp

end
